theory Spec2Isabelle
  imports Main "HOL-Library.Word" "HOL-Library.Multiset"
begin

section \<open>The in-memory note store of internal/repo/note\_mem.go\<close>

text \<open>
  The store is a struct holding a map from identifiers to notes and the next identifier to
  hand out. Its methods are embedded as functions that take the store and return the
  result together with the store after the call. Every method holds the store's lock for
  its whole body, so a method is one atomic step and the lock itself is not part of the
  state.
\<close>

subsection \<open>Data\<close>

text \<open>Go's \<open>int64\<close>: \<open>+\<close> wraps around, the order is the signed one (\<open>word_sless\<close>).\<close>

type_synonym int64 = "64 word"

text \<open>A reading of the clock (\<open>time.Now()\<close>), as a count of nanoseconds.\<close>

type_synonym time = int

text \<open>
  Modelled from the spec: the struct \<open>core.Note\<close> is declared in package internal/core,
  whose file is not among the sources. Its fields are the ones the store and the handlers
  use, with the types of the spec's data model: \<open>ID int64\<close>, \<open>Title string\<close>,
  \<open>Content string\<close>, \<open>CreatedAt time.Time\<close> and \<open>UpdatedAt *time.Time\<close>, where the nil
  pointer is \<open>None\<close>.
\<close>

record Note =
  ID :: int64
  Title :: string
  Content :: string
  CreatedAt :: time
  UpdatedAt :: "time option"

datatype error = ErrNoteNotFound

text \<open>
  The struct \<open>NoteRepoMem\<close>. The map holds pointers to notes; \<open>Create\<close> stores the address
  of its own by-value parameter, a fresh cell for every call, and no method hands a stored
  pointer out (\<open>GetByID\<close> and \<open>GetAll\<close> copy the note). So no two keys share a cell and
  the map is modelled as a map to the notes themselves; a write through the stored pointer
  is an update of the map at that key.
\<close>

record NoteRepoMem =
  "notes" :: "int64 \<rightharpoonup> Note"
  "next" :: int64

text \<open>
  A value of the empty interface \<open>interface{}\<close>, as found in the \<open>updates\<close> map: a
  string, a value of another dynamic type (here an integer or a boolean), or the nil
  interface.
\<close>

datatype any = AString string | AInt int | ABool bool | ANil

text \<open>
  The comma-ok type assertion \<open>updates[key].(string)\<close>. Indexing a map with a missing key
  gives the nil interface; the assertion then yields the zero string and \<open>False\<close>, as it
  does for every value that is not a string.
\<close>

fun assert_string :: "any option \<Rightarrow> string \<times> bool" where
  "assert_string (Some (AString s)) = (s, True)"
| "assert_string _ = ([], False)"

text \<open>
  A Go slice value: \<open>None\<close> is the nil slice, \<open>Some xs\<close> a slice that is not nil.
  \<open>make\<close> gives an empty slice that is not nil; \<open>append\<close> never gives nil.
\<close>

type_synonym 'a slice = "'a list option"

definition make_slice :: "'a slice" where
  "make_slice = Some []"

fun append_slice :: "'a slice \<Rightarrow> 'a \<Rightarrow> 'a slice" where
  "append_slice None x = Some [x]"
| "append_slice (Some xs) x = Some (xs @ [x])"

subsection \<open>Operations\<close>

definition NewNoteRepoMem :: NoteRepoMem where
  "NewNoteRepoMem = \<lparr>notes = Map.empty, next = 1\<rparr>"

text \<open>\<open>Create\<close>; \<open>now\<close> is what \<open>time.Now()\<close> returns in the call.\<close>

definition Create :: "time \<Rightarrow> Note \<Rightarrow> NoteRepoMem \<Rightarrow> (int64 \<times> error option) \<times> NoteRepoMem" where
  "Create now n r =
     (let n1 = n\<lparr>ID := next r\<rparr>;
          n2 = n1\<lparr>CreatedAt := now\<rparr>;
          n3 = n2\<lparr>UpdatedAt := None\<rparr>;
          r1 = r\<lparr>notes := (notes r)(ID n3 \<mapsto> n3)\<rparr>;
          r2 = r1\<lparr>next := next r1 + 1\<rparr>
      in ((ID n3, None), r2))"

definition GetByID :: "int64 \<Rightarrow> NoteRepoMem \<Rightarrow> error + Note" where
  "GetByID i r =
     (case notes r i of
        None \<Rightarrow> Inl ErrNoteNotFound
      | Some note \<Rightarrow> Inr note)"

text \<open>
  \<open>GetAll\<close>. The \<open>range\<close> loop visits every entry of the map once, in an order the
  runtime chooses; \<open>ks\<close> is that order, as the list of keys visited. \<open>range_order\<close>
  says that a list is such an order for a map.
\<close>

definition range_order :: "('k \<rightharpoonup> 'v) \<Rightarrow> 'k list \<Rightarrow> bool" where
  "range_order m ks = (distinct ks \<and> set ks = dom m)"

definition GetAll :: "int64 list \<Rightarrow> NoteRepoMem \<Rightarrow> Note slice \<times> error option" where
  "GetAll ks r =
     (fold (\<lambda>k acc. case notes r k of
                       None \<Rightarrow> acc
                     | Some note \<Rightarrow> append_slice acc note)
           ks make_slice,
      None)"

text \<open>\<open>UpdatePartial\<close>; \<open>now\<close> is what \<open>time.Now()\<close> returns in the call.\<close>

definition UpdatePartial ::
    "time \<Rightarrow> int64 \<Rightarrow> (string \<rightharpoonup> any) \<Rightarrow> NoteRepoMem \<Rightarrow> error option \<times> NoteRepoMem" where
  "UpdatePartial now i updates r =
     (case notes r i of
        None \<Rightarrow> (Some ErrNoteNotFound, r)
      | Some note \<Rightarrow>
          (let (title, ok) = assert_string (updates ''title'');
               note1 = (if ok \<and> title \<noteq> [] then note\<lparr>Title := title\<rparr> else note);
               (content, ok') = assert_string (updates ''content'');
               note2 = (if ok' then note1\<lparr>Content := content\<rparr> else note1);
               note3 = note2\<lparr>UpdatedAt := Some now\<rparr>
           in (None, r\<lparr>notes := (notes r)(i \<mapsto> note3)\<rparr>)))"

definition Delete :: "int64 \<Rightarrow> NoteRepoMem \<Rightarrow> error option \<times> NoteRepoMem" where
  "Delete i r =
     (if notes r i = None then (Some ErrNoteNotFound, r)
      else (None, r\<lparr>notes := (notes r)(i := None)\<rparr>))"

subsection \<open>Sequences of calls\<close>

text \<open>
  A call of one of the five methods with its arguments (and, where the method reads the
  clock or ranges over the map, what the runtime supplies), and what the call returns.
\<close>

datatype call =
    CallCreate time Note
  | CallGetByID int64
  | CallGetAll "int64 list"
  | CallUpdatePartial time int64 "string \<rightharpoonup> any"
  | CallDelete int64

datatype reply =
    RetCreate int64 "error option"
  | RetGetByID "error + Note"
  | RetGetAll "Note slice" "error option"
  | RetUpdatePartial "error option"
  | RetDelete "error option"

fun exec :: "call \<Rightarrow> NoteRepoMem \<Rightarrow> reply \<times> NoteRepoMem" where
  "exec (CallCreate now n) r = (case Create now n r of ((i, e), r') \<Rightarrow> (RetCreate i e, r'))"
| "exec (CallGetByID i) r = (RetGetByID (GetByID i r), r)"
| "exec (CallGetAll ks) r = (case GetAll ks r of (ns, e) \<Rightarrow> (RetGetAll ns e, r))"
| "exec (CallUpdatePartial now i updates) r =
     (case UpdatePartial now i updates r of (e, r') \<Rightarrow> (RetUpdatePartial e, r'))"
| "exec (CallDelete i) r = (case Delete i r of (e, r') \<Rightarrow> (RetDelete e, r'))"

fun run :: "call list \<Rightarrow> NoteRepoMem \<Rightarrow> reply list \<times> NoteRepoMem" where
  "run [] r = ([], r)"
| "run (c # cs) r =
     (case exec c r of (y, r') \<Rightarrow> (case run cs r' of (ys, r'') \<Rightarrow> (y # ys, r'')))"

text \<open>The identifiers that the \<open>Create\<close> calls of a run returned, in call order.\<close>

fun created_ids :: "reply list \<Rightarrow> int64 list" where
  "created_ids [] = []"
| "created_ids (RetCreate i e # ys) = i # created_ids ys"
| "created_ids (y # ys) = created_ids ys"

fun is_create :: "call \<Rightarrow> bool" where
  "is_create (CallCreate now n) = True"
| "is_create c = False"

text \<open>The error of a reply, if it carries one.\<close>

fun reply_error :: "reply \<Rightarrow> error option" where
  "reply_error (RetCreate i e) = e"
| "reply_error (RetGetByID (Inl e)) = Some e"
| "reply_error (RetGetByID (Inr n)) = None"
| "reply_error (RetGetAll ns e) = e"
| "reply_error (RetUpdatePartial e) = e"
| "reply_error (RetDelete e) = e"

subsection \<open>The state invariant\<close>

text \<open>
  Every key of the map is below the counter in the signed order, and every stored note
  carries its key as its identifier, so that no two stored notes have the same identifier.
\<close>

definition keys_below_next :: "NoteRepoMem \<Rightarrow> bool" where
  "keys_below_next r = (\<forall>k \<in> dom (notes r). k <s next r)"

definition ids_are_keys :: "NoteRepoMem \<Rightarrow> bool" where
  "ids_are_keys r = (\<forall>k \<in> dom (notes r). map_option ID (notes r k) = Some k)"

definition store_inv :: "NoteRepoMem \<Rightarrow> bool" where
  "store_inv r = (keys_below_next r \<and> ids_are_keys r)"

subsection \<open>Example values\<close>

text \<open>A note as a caller passes it to \<open>Create\<close>, and stores that hold one and two notes.\<close>

abbreviation input_A :: Note where
  "input_A \<equiv> \<lparr>ID = 0, Title = ''A'', Content = ''x'', CreatedAt = 0, UpdatedAt = None\<rparr>"

abbreviation note_A :: Note where
  "note_A \<equiv> \<lparr>ID = 1, Title = ''A'', Content = ''x'', CreatedAt = 5, UpdatedAt = None\<rparr>"

abbreviation store_A :: NoteRepoMem where
  "store_A \<equiv> \<lparr>notes = [1 \<mapsto> note_A], next = 2\<rparr>"

abbreviation note_B :: Note where
  "note_B \<equiv> \<lparr>ID = 2, Title = ''B'', Content = ''y'', CreatedAt = 6, UpdatedAt = None\<rparr>"

abbreviation store_AB :: NoteRepoMem where
  "store_AB \<equiv> \<lparr>notes = [1 \<mapsto> note_A, 2 \<mapsto> note_B], next = 3\<rparr>"

section \<open>Basic facts\<close>

text \<open>What \<open>UpdatePartial\<close> does to a stored note, in closed form.\<close>

lemma UpdatePartial_found:
  assumes "notes r i = Some note"
  shows "UpdatePartial now i updates r =
     (None, r\<lparr>notes := (notes r)(i \<mapsto> note
        \<lparr>Title := (case updates ''title'' of
                      Some (AString t) \<Rightarrow> if t \<noteq> [] then t else Title note
                    | _ \<Rightarrow> Title note),
         Content := (case updates ''content'' of
                      Some (AString c) \<Rightarrow> c
                    | _ \<Rightarrow> Content note),
         UpdatedAt := Some now\<rparr>)\<rparr>)"
  using assms
  by (cases "updates ''title''" rule: assert_string.cases;
      cases "updates ''content''" rule: assert_string.cases)
     (auto simp: UpdatePartial_def Let_def split: option.splits prod.splits)

lemma UpdatePartial_absent:
  "notes r i = None \<Longrightarrow> UpdatePartial now i updates r = (Some ErrNoteNotFound, r)"
  by (simp add: UpdatePartial_def)

lemma UpdatePartial_other: "j \<noteq> i \<Longrightarrow> notes (snd (UpdatePartial now i updates r)) j = notes r j"
  by (auto simp: UpdatePartial_def Let_def split: option.splits prod.splits)

lemma UpdatePartial_next: "next (snd (UpdatePartial now i updates r)) = next r"
  by (auto simp: UpdatePartial_def Let_def split: option.splits prod.splits)

text \<open>The loop of \<open>GetAll\<close> collects the notes found under the keys it visits.\<close>

lemma GetAll_fold:
  "fold (\<lambda>k acc. case m k of None \<Rightarrow> acc | Some note \<Rightarrow> append_slice acc note) ks (Some xs)
     = Some (xs @ List.map_filter m ks)"
  by (induction ks arbitrary: xs) (simp_all split: option.splits)

lemma GetAll_eq: "GetAll ks r = (Some (List.map_filter (notes r) ks), None)"
  by (simp add: GetAll_def make_slice_def GetAll_fold)

lemma map_filter_dom: "set ks \<subseteq> dom m \<Longrightarrow> map Some (List.map_filter m ks) = map m ks"
  by (induction ks) auto

lemma set_map_filter: "set (List.map_filter m ks) = {y. \<exists>k \<in> set ks. m k = Some y}"
  by (induction ks) (auto split: option.splits)

lemma GetAll_range_order:
  assumes ro: "range_order (notes r) ks"
  shows "map Some (List.map_filter (notes r) ks) = map (notes r) ks"
    and "mset (map Some (List.map_filter (notes r) ks)) = image_mset (notes r) (mset_set (dom (notes r)))"
    and "length (List.map_filter (notes r) ks) = card (dom (notes r))"
    and "set (List.map_filter (notes r) ks) = ran (notes r)"
proof -
  let ?xs = "List.map_filter (notes r) ks"
  from ro have d: "distinct ks" and s: "set ks = dom (notes r)"
    by (simp_all add: range_order_def)
  show m: "map Some ?xs = map (notes r) ks"
    using s by (simp add: map_filter_dom)
  have "mset ks = mset_set (dom (notes r))"
    using d s by (metis mset_set_set)
  then have "mset (map (notes r) ks) = image_mset (notes r) (mset_set (dom (notes r)))"
    by simp
  then show "mset (map Some ?xs) = image_mset (notes r) (mset_set (dom (notes r)))"
    by (simp only: m)
  have "length ?xs = length (map Some ?xs)"
    by simp
  also have "\<dots> = length ks"
    by (simp only: m length_map)
  also have "\<dots> = card (dom (notes r))"
    using d s by (metis distinct_card)
  finally show "length ?xs = card (dom (notes r))" .
  show "set ?xs = ran (notes r)"
    unfolding set_map_filter s by (auto simp: ran_def)
qed

lemma range_order_exists: "finite (dom m) \<Longrightarrow> \<exists>ks. range_order m ks"
  unfolding range_order_def using finite_distinct_list by metis

subsection \<open>Signed order of \<open>int64\<close>\<close>

lemma sint_of_nat64: "k < 2 ^ 63 \<Longrightarrow> sint (word_of_nat k :: int64) = int k"
  by (simp add: signed_of_nat signed_take_bit_int_eq_self_iff)

lemma sint_succ64: "sint (x :: int64) \<noteq> 2 ^ 63 - 1 \<Longrightarrow> sint (x + 1) = sint x + 1"
proof -
  assume a: "sint x \<noteq> 2 ^ 63 - 1"
  have "sint x < 2 ^ 63" "- (2 ^ 63) \<le> sint x"
    using sint_lt [of x] sint_ge [of x] by simp_all
  with a have "- (2 ^ 63) \<le> sint x + 1 \<and> sint x + 1 < 2 ^ 63" by simp
  then have "signed_take_bit 63 (sint x + 1) = sint x + 1"
    by (simp add: signed_take_bit_int_eq_self_iff)
  then show ?thesis by (simp add: sint_word_add)
qed

lemma sless_succ64: "(x :: int64) \<noteq> 2 ^ 63 - 1 \<Longrightarrow> x <s x + 1"
proof -
  assume a: "x \<noteq> 2 ^ 63 - 1"
  have "sint (2 ^ 63 - 1 :: int64) = 2 ^ 63 - 1" by simp
  with a have "sint x \<noteq> 2 ^ 63 - 1"
    by (metis signed_word_eqI)
  then show ?thesis by (simp add: word_sless_alt sint_succ64)
qed

subsection \<open>Runs and the identifiers they hand out\<close>

lemma exec_next: "next (snd (exec c r)) = (if is_create c then next r + 1 else next r)"
  by (cases c) (simp_all add: Create_def Let_def UpdatePartial_next Delete_def GetAll_eq case_prod_unfold)

lemma run_append:
  "run (cs @ ds) r = (fst (run cs r) @ fst (run ds (snd (run cs r))), snd (run ds (snd (run cs r))))"
  by (induction cs arbitrary: r) (simp_all split: prod.splits)

lemma run_next:
  "next (snd (run cs r)) = next r + word_of_nat (length (filter is_create cs))"
proof (induction cs arbitrary: r)
  case Nil
  show ?case by simp
next
  case (Cons c cs)
  have "next (snd (run (c # cs) r)) = next (snd (run cs (snd (exec c r))))"
    by (simp split: prod.splits)
  also have "\<dots> = next (snd (exec c r)) + word_of_nat (length (filter is_create cs))"
    by (rule Cons.IH)
  finally show ?case by (simp add: exec_next)
qed

lemma created_ids_exec:
  "created_ids (fst (exec c r) # ys) = (if is_create c then next r # created_ids ys else created_ids ys)"
  by (cases c) (simp_all add: Create_def Let_def GetAll_eq split: prod.splits)

lemma created_ids_run:
  "created_ids (fst (run cs r)) =
     map (\<lambda>k. next r + word_of_nat k) [0..<length (filter is_create cs)]"
proof (induction cs arbitrary: r)
  case Nil
  show ?case by simp
next
  case (Cons c cs)
  let ?r' = "snd (exec c r)"
  have step: "created_ids (fst (run (c # cs) r)) = created_ids (fst (exec c r) # fst (run cs ?r'))"
    by (simp split: prod.splits)
  show ?case
  proof (cases "is_create c")
    case True
    have "map (\<lambda>k. next r + word_of_nat k) [0..<Suc (length (filter is_create cs))]
        = next r # map (\<lambda>k. next r + word_of_nat k) (map Suc [0..<length (filter is_create cs)])"
      by (simp only: map_Suc_upt upt_conv_Cons [of 0] list.map) simp
    also have "\<dots> = next r # map (\<lambda>k. next r + 1 + word_of_nat k) [0..<length (filter is_create cs)]"
      by (simp add: add.assoc)
    finally show ?thesis
      using True by (simp only: step created_ids_exec Cons.IH exec_next) simp
  next
    case False
    then show ?thesis
      by (simp only: step created_ids_exec Cons.IH exec_next) simp
  qed
qed

lemma created_ids_new:
  "created_ids (fst (run cs NewNoteRepoMem)) =
     map word_of_nat [1..<Suc (length (filter is_create cs))]"
proof -
  have "map (\<lambda>k. (1::int64) + word_of_nat k) [0..<n] = map word_of_nat [1..<Suc n]" for n
    by (simp only: map_Suc_upt [symmetric] One_nat_def) (simp add: add.commute)
  then show ?thesis
    by (simp add: created_ids_run NewNoteRepoMem_def)
qed

lemma count_replicate_create:
  "length (filter is_create (replicate n (CallCreate t m))) = n"
  by (induction n) simp_all

lemma nth_ids:
  "i < n \<Longrightarrow> map (word_of_nat :: nat \<Rightarrow> int64) [1..<Suc n] ! i = word_of_nat (Suc i)"
  by (simp del: upt_Suc)

lemma ids_sorted:
  "sorted_wrt (<s) (map (word_of_nat :: nat \<Rightarrow> int64) [1..<Suc n]) = (n < 2 ^ 63)"
proof
  assume n: "n < 2 ^ 63"
  have "sorted_wrt (<) [1..<Suc n]" by (rule sorted_wrt_upt)
  then have "sorted_wrt (\<lambda>x y. (word_of_nat x :: int64) <s word_of_nat y) [1..<Suc n]"
  proof (rule sorted_wrt_mono_rel [rotated])
    fix x y assume "x \<in> set [1..<Suc n]" "y \<in> set [1..<Suc n]" "x < y"
    then have "x \<le> n" "y \<le> n" by (simp_all only: set_upt atLeastLessThan_iff less_Suc_eq_le)
    with n have "x < 2 ^ 63" "y < 2 ^ 63" by linarith+
    with \<open>x < y\<close> show "(word_of_nat x :: int64) <s word_of_nat y"
      by (simp add: word_sless_alt sint_of_nat64)
  qed
  then show "sorted_wrt (<s) (map (word_of_nat :: nat \<Rightarrow> int64) [1..<Suc n])"
    by (simp only: sorted_wrt_map)
next
  assume s: "sorted_wrt (<s) (map (word_of_nat :: nat \<Rightarrow> int64) [1..<Suc n])"
  show "n < 2 ^ 63"
  proof (rule ccontr)
    assume "\<not> n < 2 ^ 63"
    then have n: "2 ^ 63 \<le> n" by simp
    let ?i = "2 ^ 63 - 2 :: nat" and ?j = "2 ^ 63 - 1 :: nat"
    let ?xs = "map (word_of_nat :: nat \<Rightarrow> int64) [1..<Suc n]"
    have l: "?i < ?j" "?j < length ?xs" using n by (simp_all del: upt_Suc)
    then have "?xs ! ?i <s ?xs ! ?j"
      using s by (simp only: sorted_wrt_iff_nth_less)
    moreover have "?xs ! ?i = 2 ^ 63 - 1" using n by (simp add: nth_ids del: upt_Suc)
    moreover have "?xs ! ?j = 2 ^ 63" using n by (simp add: nth_ids del: upt_Suc)
    ultimately show False by (simp add: word_sless_alt)
  qed
qed

lemma ids_distinct:
  "distinct (map (word_of_nat :: nat \<Rightarrow> int64) [1..<Suc n]) = (n \<le> 2 ^ 64)"
proof
  assume n: "n \<le> 2 ^ 64"
  have "inj_on (word_of_nat :: nat \<Rightarrow> int64) (set [1..<Suc n])"
  proof (rule inj_onI)
    fix x y assume x: "x \<in> set [1..<Suc n]" and y: "y \<in> set [1..<Suc n]"
      and e: "(word_of_nat x :: int64) = word_of_nat y"
    from x y n have b: "1 \<le> x" "x \<le> 2 ^ 64" "1 \<le> y" "y \<le> 2 ^ 64"
      by (simp_all only: set_upt atLeastLessThan_iff less_Suc_eq_le) linarith+
    from e have t: "take_bit 64 x = take_bit 64 y"
      by (simp add: word_of_nat_eq_iff)
    have tb: "take_bit 64 z = (if z = 2 ^ 64 then 0 else z)" if "z \<le> 2 ^ 64" for z :: nat
      using that by (auto simp: take_bit_nat_eq_self_iff le_less)
    from t b show "x = y"
      by (simp add: tb split: if_splits)
  qed
  then show "distinct (map (word_of_nat :: nat \<Rightarrow> int64) [1..<Suc n])"
    by (simp only: distinct_map distinct_upt simp_thms)
next
  assume d: "distinct (map (word_of_nat :: nat \<Rightarrow> int64) [1..<Suc n])"
  show "n \<le> 2 ^ 64"
  proof (rule ccontr)
    assume "\<not> n \<le> 2 ^ 64"
    then have n: "2 ^ 64 < n" by simp
    let ?xs = "map (word_of_nat :: nat \<Rightarrow> int64) [1..<Suc n]"
    have "?xs ! 0 = 1" using n by (simp add: nth_ids del: upt_Suc)
    moreover have "?xs ! (2 ^ 64) = 1" using n by (simp add: nth_ids del: upt_Suc)
    moreover have "(0::nat) < length ?xs" "(2 ^ 64 :: nat) < length ?xs" "(0::nat) \<noteq> 2 ^ 64"
      using n by (simp_all del: upt_Suc)
    ultimately show False
      using d by (metis nth_eq_iff_index_eq)
  qed
qed

lemma scenario_run:
  "run [CallCreate ta a, CallCreate tb b, CallDelete 1, CallCreate tc c] NewNoteRepoMem =
     ([RetCreate 1 None, RetCreate 2 None, RetDelete None, RetCreate 3 None],
      \<lparr>notes = [2 \<mapsto> b\<lparr>ID := 2, CreatedAt := tb, UpdatedAt := None\<rparr>,
                3 \<mapsto> c\<lparr>ID := 3, CreatedAt := tc, UpdatedAt := None\<rparr>],
       next = 4\<rparr>)"
  by (simp add: NewNoteRepoMem_def Create_def Delete_def Let_def fun_upd_twist)

subsection \<open>The invariant\<close>

lemma keys_below_fresh: "keys_below_next r \<Longrightarrow> notes r (next r) = None"
  by (auto simp: keys_below_next_def dom_def)

lemma ids_are_keys_ID: "ids_are_keys r \<Longrightarrow> notes r k = Some a \<Longrightarrow> ID a = k"
proof -
  assume i: "ids_are_keys r" and a: "notes r k = Some a"
  from a have "k \<in> dom (notes r)"
    by (simp add: dom_def)
  with i have "map_option ID (notes r k) = Some k"
    by (simp add: ids_are_keys_def)
  with a show "ID a = k"
    by simp
qed

lemma ids_are_keys_no_duplicate:
  "ids_are_keys r \<Longrightarrow> notes r j = Some a \<Longrightarrow> notes r k = Some b \<Longrightarrow> ID a = ID b \<Longrightarrow> j = k"
  using ids_are_keys_ID [of r j a] ids_are_keys_ID [of r k b] by simp

text \<open>
  What a call does to a key that is bound before and after it: the note keeps identifier
  and \<open>created_at\<close>, or the call is the \<open>Create\<close> that has bound the key to its new note.
\<close>

lemma exec_entry:
  assumes a: "notes r j = Some old" and b: "notes (snd (exec c r)) j = Some new"
  shows "CreatedAt new = CreatedAt old \<and> ID new = ID old \<or>
      (\<exists>now' n'. c = CallCreate now' n' \<and> j = fst (fst (Create now' n' r)) \<and>
          new = n'\<lparr>ID := j, CreatedAt := now', UpdatedAt := None\<rparr>)"
proof (cases c)
  case (CallCreate t m)
  with a b show ?thesis
    by (cases "j = next r") (auto simp: Create_def Let_def)
next
  case (CallGetByID k)
  with a b show ?thesis by auto
next
  case (CallGetAll ks)
  with a b show ?thesis by (auto simp: GetAll_eq)
next
  case (CallUpdatePartial t k u)
  show ?thesis
  proof (cases "k = j")
    case True
    with a b CallUpdatePartial show ?thesis
      by (auto simp: UpdatePartial_found)
  next
    case False
    then have "notes (snd (UpdatePartial t k u r)) j = notes r j"
      by (simp add: UpdatePartial_other)
    with a b CallUpdatePartial show ?thesis
      by (simp split: prod.splits)
  qed
next
  case (CallDelete k)
  with a b show ?thesis
    by (cases "k = j") (auto simp: Delete_def split: if_splits)
qed

lemma finite_dom_exec: "finite (dom (notes r)) \<Longrightarrow> finite (dom (notes (snd (exec c r))))"
proof (cases c)
  case (CallUpdatePartial t k u)
  assume "finite (dom (notes r))"
  with CallUpdatePartial show ?thesis
    by (cases "notes r k") (simp_all add: UpdatePartial_absent UpdatePartial_found case_prod_unfold)
qed (simp_all add: Create_def Let_def Delete_def GetAll_eq case_prod_unfold)

lemma finite_dom_run: "finite (dom (notes r)) \<Longrightarrow> finite (dom (notes (snd (run cs r))))"
proof (induction cs arbitrary: r)
  case Nil
  then show ?case by simp
next
  case (Cons c cs)
  from Cons.prems have "finite (dom (notes (snd (exec c r))))"
    by (rule finite_dom_exec)
  then have "finite (dom (notes (snd (run cs (snd (exec c r))))))"
    by (rule Cons.IH)
  then show ?case
    by (simp add: case_prod_unfold)
qed

lemma finite_dom_new_run: "finite (dom (notes (snd (run cs NewNoteRepoMem))))"
  by (rule finite_dom_run) (simp add: NewNoteRepoMem_def)

lemma store_inv_New: "store_inv NewNoteRepoMem"
  by (simp add: store_inv_def keys_below_next_def ids_are_keys_def NewNoteRepoMem_def)

lemma store_inv_Create:
  assumes inv: "store_inv r" and nm: "next r \<noteq> 2 ^ 63 - 1"
  shows "store_inv (snd (Create now n r))"
proof -
  from nm have s: "next r <s next r + 1"
    by (rule sless_succ64)
  have "k <s next r + 1" if "k \<in> dom (notes r)" for k
  proof -
    from inv that have "k <s next r"
      by (simp add: store_inv_def keys_below_next_def)
    with s show ?thesis
      by (simp add: word_sless_alt)
  qed
  with s have kb: "keys_below_next (snd (Create now n r))"
    by (auto simp: keys_below_next_def Create_def Let_def)
  from inv have "ids_are_keys r"
    by (simp add: store_inv_def)
  then have ik: "ids_are_keys (snd (Create now n r))"
    by (auto simp: ids_are_keys_def Create_def Let_def)
  from kb ik show ?thesis
    by (simp add: store_inv_def)
qed

lemma store_inv_UpdatePartial:
  assumes inv: "store_inv r"
  shows "store_inv (snd (UpdatePartial now i updates r))"
proof (cases "notes r i")
  case None
  with inv show ?thesis
    by (simp add: UpdatePartial_absent)
next
  case (Some a)
  let ?r' = "snd (UpdatePartial now i updates r)"
  from inv have kb: "keys_below_next r" and ik: "ids_are_keys r"
    by (simp_all add: store_inv_def)
  from ik Some have ia: "ID a = i"
    by (rule ids_are_keys_ID)
  have d: "dom (notes ?r') = dom (notes r)"
    using Some by (auto simp: UpdatePartial_found [OF Some])
  have "keys_below_next ?r'"
    using kb by (simp add: keys_below_next_def d UpdatePartial_next)
  moreover have "ids_are_keys ?r'"
    unfolding ids_are_keys_def d
  proof
    fix k assume k: "k \<in> dom (notes r)"
    show "map_option ID (notes ?r' k) = Some k"
    proof (cases "k = i")
      case True
      with ia show ?thesis
        by (simp add: UpdatePartial_found [OF Some])
    next
      case False
      then have "notes ?r' k = notes r k"
        by (rule UpdatePartial_other)
      with ik k show ?thesis
        by (simp add: ids_are_keys_def)
    qed
  qed
  ultimately show ?thesis
    by (simp add: store_inv_def)
qed

lemma store_inv_Delete: "store_inv r \<Longrightarrow> store_inv (snd (Delete i r))"
  by (simp add: Delete_def store_inv_def keys_below_next_def ids_are_keys_def)

lemma store_inv_exec:
  "store_inv r \<Longrightarrow> (is_create c \<longrightarrow> next r \<noteq> 2 ^ 63 - 1) \<Longrightarrow> store_inv (snd (exec c r))"
  by (cases c)
     (simp_all add: store_inv_Create store_inv_UpdatePartial store_inv_Delete case_prod_unfold)

lemma store_inv_run:
  "length (filter is_create cs) < 2 ^ 63 - 1 \<Longrightarrow> store_inv (snd (run cs NewNoteRepoMem))"
proof (induction cs rule: rev_induct)
  case Nil
  show ?case by (simp add: store_inv_New)
next
  case (snoc c cs)
  let ?r = "snd (run cs NewNoteRepoMem)"
  let ?n = "length (filter is_create cs)"
  from snoc.prems have b: "?n < 2 ^ 63 - 1" and c: "is_create c \<longrightarrow> Suc ?n < 2 ^ 63 - 1"
    by (simp_all split: if_splits)
  with snoc.IH have inv: "store_inv ?r"
    by simp
  have nx: "next ?r = word_of_nat (Suc ?n)"
    by (simp add: run_next NewNoteRepoMem_def)
  have "is_create c \<longrightarrow> next ?r \<noteq> 2 ^ 63 - 1"
  proof
    assume "is_create c"
    with c have l: "Suc ?n < 2 ^ 63 - 1" by simp
    then have "Suc ?n < 2 ^ 63" by simp
    then have "sint (word_of_nat (Suc ?n) :: int64) = int (Suc ?n)"
      by (rule sint_of_nat64)
    moreover have "sint (2 ^ 63 - 1 :: int64) = 2 ^ 63 - 1"
      by simp
    ultimately have "sint (word_of_nat (Suc ?n) :: int64) \<noteq> sint (2 ^ 63 - 1 :: int64)"
      using l by simp
    then show "next ?r \<noteq> 2 ^ 63 - 1"
      unfolding nx by auto
  qed
  with inv have "store_inv (snd (exec c ?r))"
    by (rule store_inv_exec)
  then show ?case
    by (simp add: run_append case_prod_unfold)
qed

lemma exec_create_keeps_keys:
  "notes r k \<noteq> None \<Longrightarrow> notes (snd (exec (CallCreate t m) r)) k \<noteq> None"
  by (simp add: Create_def Let_def)

lemma run_creates_keep_keys:
  "notes r k \<noteq> None \<Longrightarrow> notes (snd (run (replicate n (CallCreate t m)) r)) k \<noteq> None"
proof (induction n arbitrary: r)
  case 0
  then show ?case by simp
next
  case (Suc n)
  from Suc.prems have "notes (snd (exec (CallCreate t m) r)) k \<noteq> None"
    by (rule exec_create_keeps_keys)
  then have "notes (snd (run (replicate n (CallCreate t m)) (snd (exec (CallCreate t m) r)))) k \<noteq> None"
    by (rule Suc.IH)
  then show ?case
    by (simp add: case_prod_unfold)
qed

lemma run_creates_first_key:
  "notes (snd (run (replicate (Suc n) (CallCreate t m)) r)) (next r) \<noteq> None"
proof -
  have "notes (snd (exec (CallCreate t m) r)) (next r) \<noteq> None"
    by (simp add: Create_def Let_def)
  then have "notes (snd (run (replicate n (CallCreate t m)) (snd (exec (CallCreate t m) r)))) (next r) \<noteq> None"
    by (rule run_creates_keep_keys)
  then show ?thesis
    by (simp add: case_prod_unfold)
qed

text \<open>
  A run of \<open>Create\<close> calls leaves a key alone unless the counter passes it. A new store
  on which \<open>Create\<close> was called \<open>2 ^ 64\<close> times has its counter at 1 again, with the
  first note still stored under 1.
\<close>

lemma run_creates_other_key:
  "(\<forall>k < n. next r + word_of_nat k \<noteq> j) \<Longrightarrow>
     notes (snd (run (replicate n (CallCreate t m)) r)) j = notes r j"
proof (induction n arbitrary: r)
  case 0
  show ?case by simp
next
  case (Suc n)
  define r' where "r' = snd (exec (CallCreate t m) r)"
  from Suc.prems have "0 < Suc n \<longrightarrow> next r + word_of_nat 0 \<noteq> j"
    by (rule spec)
  then have j: "next r \<noteq> j"
    by simp
  have nx: "next r' = next r + 1"
    by (simp only: r'_def exec_next is_create.simps if_True)
  have "\<forall>k < n. next r' + word_of_nat k \<noteq> j"
  proof (intro allI impI)
    fix k assume "k < n"
    then have "Suc k < Suc n" by simp
    moreover from Suc.prems have "Suc k < Suc n \<longrightarrow> next r + word_of_nat (Suc k) \<noteq> j"
      by (rule spec)
    ultimately have "next r + word_of_nat (Suc k) \<noteq> j"
      by (rule rev_mp)
    then show "next r' + word_of_nat k \<noteq> j"
      by (simp add: nx add.assoc)
  qed
  then have "notes (snd (run (replicate n (CallCreate t m)) r')) j = notes r' j"
    by (rule Suc.IH)
  also have "\<dots> = notes r j"
    using j by (simp add: r'_def Create_def Let_def)
  finally show ?case
    by (simp add: r'_def case_prod_unfold)
qed

lemma no_wrap_to_one:
  assumes "k < 2 ^ 64 - 1"
  shows "(2 :: int64) + word_of_nat k \<noteq> 1"
proof
  assume "(2 :: int64) + word_of_nat k = 1"
  then have "(word_of_nat (k + 2) :: int64) = word_of_nat 1"
    by (simp add: add.commute)
  then have t: "take_bit 64 (k + 2) = take_bit 64 (1 :: nat)"
    by (simp only: word_of_nat_eq_iff) simp
  have "take_bit 64 (k + 2) = (if k + 2 = 2 ^ 64 then 0 else k + 2)"
    using assms by (auto simp: take_bit_nat_eq_self_iff)
  with t show False
    by (simp split: if_splits)
qed

lemma wrapped_store:
  "snd (run (CallCreate 5 input_A # replicate (2 ^ 64 - 1) (CallCreate 0 input_A)) NewNoteRepoMem)
     = r \<Longrightarrow> next r = 1 \<and> notes r 1 = Some note_A"
proof -
  let ?cs = "replicate (2 ^ 64 - 1) (CallCreate 0 input_A)"
  let ?r1 = "\<lparr>notes = [1 \<mapsto> note_A], next = 2\<rparr>"
  assume "snd (run (CallCreate 5 input_A # ?cs) NewNoteRepoMem) = r"
  moreover have "snd (exec (CallCreate 5 input_A) NewNoteRepoMem) = ?r1"
    by (simp add: NewNoteRepoMem_def Create_def Let_def)
  ultimately have r: "r = snd (run ?cs ?r1)"
    by (simp only: run.simps case_prod_unfold snd_conv)
  have "next (snd (run ?cs ?r1)) = next ?r1 + word_of_nat (2 ^ 64 - 1)"
    by (simp only: run_next count_replicate_create)
  then have "next (snd (run ?cs ?r1)) = 1"
    by simp
  then have n: "next r = 1"
    by (simp only: r)
  have "\<forall>k < 2 ^ 64 - 1. next ?r1 + word_of_nat k \<noteq> 1"
    by (simp add: no_wrap_to_one)
  then have "notes (snd (run ?cs ?r1)) 1 = notes ?r1 1"
    by (rule run_creates_other_key)
  also have "notes ?r1 1 = Some note_A"
    by simp
  finally have "notes r 1 = Some note_A"
    by (simp only: r)
  with n show ?thesis by simp
qed

section \<open>Properties\<close>

text \<open>
  C1: on a new store, whatever calls are interleaved, the identifiers that the \<open>Create\<close>
  calls return are 1, 2, 3, ... in call order, each one more than the one before (in
  \<open>int64\<close> arithmetic). They are strictly increasing in the signed order exactly when the
  run has fewer than \<open>2 ^ 63\<close> \<open>Create\<close> calls, and pairwise different exactly when it has
  at most \<open>2 ^ 64\<close>. In the scenario Create, Create, Delete(1), Create the identifiers are
  1, 2 and 3 and no call fails, and \<open>GetAll\<close> then returns two notes, the ones with the
  identifiers 2 and 3.
\<close>

theorem C1_created_ids:
  "created_ids (fst (run cs NewNoteRepoMem)) =
      map word_of_nat [1..<Suc (length (filter is_create cs))] \<and>
   sorted_wrt (<s) (created_ids (fst (run cs NewNoteRepoMem))) =
      (length (filter is_create cs) < 2 ^ 63) \<and>
   distinct (created_ids (fst (run cs NewNoteRepoMem))) =
      (length (filter is_create cs) \<le> 2 ^ 64) \<and>
   (length (filter is_create cs) < 2 ^ 63 \<longrightarrow>
      sorted_wrt (<s) (created_ids (fst (run cs NewNoteRepoMem))) \<and>
      distinct (created_ids (fst (run cs NewNoteRepoMem)))) \<and>
   fst (run [CallCreate ta a, CallCreate tb b, CallDelete 1, CallCreate tc c] NewNoteRepoMem) =
      [RetCreate 1 None, RetCreate 2 None, RetDelete None, RetCreate 3 None] \<and>
   (range_order
      (notes (snd (run [CallCreate ta a, CallCreate tb b, CallDelete 1, CallCreate tc c]
         NewNoteRepoMem))) ks \<longrightarrow>
    (\<exists>xs. GetAll ks
        (snd (run [CallCreate ta a, CallCreate tb b, CallDelete 1, CallCreate tc c]
           NewNoteRepoMem)) = (Some xs, None) \<and>
      length xs = 2 \<and>
      set xs = {b\<lparr>ID := 2, CreatedAt := tb, UpdatedAt := None\<rparr>,
                c\<lparr>ID := 3, CreatedAt := tc, UpdatedAt := None\<rparr>}))"
proof (intro conjI impI)
  let ?n = "length (filter is_create cs)"
  show ids: "created_ids (fst (run cs NewNoteRepoMem)) = map word_of_nat [1..<Suc ?n]"
    by (rule created_ids_new)
  show s: "sorted_wrt (<s) (created_ids (fst (run cs NewNoteRepoMem))) = (?n < 2 ^ 63)"
    by (simp only: ids ids_sorted)
  show d: "distinct (created_ids (fst (run cs NewNoteRepoMem))) = (?n \<le> 2 ^ 64)"
    by (simp only: ids ids_distinct)
  assume b: "?n < 2 ^ 63"
  then show "sorted_wrt (<s) (created_ids (fst (run cs NewNoteRepoMem)))"
    by (simp only: s)
  from b have "?n \<le> 2 ^ 64" by simp
  then show "distinct (created_ids (fst (run cs NewNoteRepoMem)))"
    by (simp only: d)
next
  show "fst (run [CallCreate ta a, CallCreate tb b, CallDelete 1, CallCreate tc c] NewNoteRepoMem) =
      [RetCreate 1 None, RetCreate 2 None, RetDelete None, RetCreate 3 None]"
    by (simp only: scenario_run fst_conv)
next
  let ?b = "b\<lparr>ID := 2, CreatedAt := tb, UpdatedAt := None\<rparr>"
  let ?c = "c\<lparr>ID := 3, CreatedAt := tc, UpdatedAt := None\<rparr>"
  define r where
    "r = snd (run [CallCreate ta a, CallCreate tb b, CallDelete 1, CallCreate tc c] NewNoteRepoMem)"
  assume "range_order
      (notes (snd (run [CallCreate ta a, CallCreate tb b, CallDelete 1, CallCreate tc c]
         NewNoteRepoMem))) ks"
  then have ro: "range_order (notes r) ks"
    by (simp only: r_def)
  have n: "notes r = [2 \<mapsto> ?b, 3 \<mapsto> ?c]"
    by (simp only: r_def scenario_run snd_conv) simp
  have "card (dom (notes r)) = 2"
    by (simp add: n)
  moreover have "ran (notes r) = {?b, ?c}"
    by (simp add: n insert_commute)
  ultimately have "\<exists>xs. GetAll ks r = (Some xs, None) \<and> length xs = 2 \<and> set xs = {?b, ?c}"
    using GetAll_range_order(3,4) [OF ro] by (simp only: GetAll_eq) simp
  then show "\<exists>xs. GetAll ks
        (snd (run [CallCreate ta a, CallCreate tb b, CallDelete 1, CallCreate tc c]
           NewNoteRepoMem)) = (Some xs, None) \<and>
      length xs = 2 \<and> set xs = {?b, ?c}"
    by (simp only: r_def)
qed

text \<open>
  Where the counter wraps the identifiers stop increasing: on a new store the \<open>Create\<close>
  call number \<open>2 ^ 63\<close> returns the least \<open>int64\<close> after the greatest, and the call
  number \<open>2 ^ 64 + 1\<close> returns 1 again.
\<close>

theorem C1_counterexample:
  "created_ids (fst (run (replicate (2 ^ 63) (CallCreate 0 input_A)) NewNoteRepoMem)) ! (2 ^ 63 - 2)
      = 9223372036854775807 \<and>
   created_ids (fst (run (replicate (2 ^ 63) (CallCreate 0 input_A)) NewNoteRepoMem)) ! (2 ^ 63 - 1)
      = - 9223372036854775808 \<and>
   \<not> ((9223372036854775807 :: int64) <s - 9223372036854775808) \<and>
   \<not> sorted_wrt (<s)
       (created_ids (fst (run (replicate (2 ^ 63) (CallCreate 0 input_A)) NewNoteRepoMem))) \<and>
   \<not> distinct
       (created_ids (fst (run (replicate (2 ^ 64 + 1) (CallCreate 0 input_A)) NewNoteRepoMem)))"
proof (intro conjI)
  let ?ids = "\<lambda>n. created_ids (fst (run (replicate n (CallCreate 0 input_A)) NewNoteRepoMem))"
  have ids: "?ids n = map word_of_nat [1..<Suc n]" for n
    by (simp only: created_ids_new count_replicate_create)
  show "?ids (2 ^ 63) ! (2 ^ 63 - 2) = 9223372036854775807"
    by (simp only: ids) (simp add: nth_ids del: upt_Suc)
  show "?ids (2 ^ 63) ! (2 ^ 63 - 1) = - 9223372036854775808"
    by (simp only: ids) (simp add: nth_ids del: upt_Suc)
  show "\<not> ((9223372036854775807 :: int64) <s - 9223372036854775808)"
    by (simp add: word_sless_alt)
  have "sorted_wrt (<s) (?ids (2 ^ 63)) = ((2 ^ 63 :: nat) < 2 ^ 63)"
    by (simp only: ids ids_sorted)
  then show "\<not> sorted_wrt (<s) (?ids (2 ^ 63))"
    by simp
  have "distinct (?ids (2 ^ 64 + 1)) = ((2 ^ 64 + 1 :: nat) \<le> 2 ^ 64)"
    by (simp only: ids ids_distinct)
  then show "\<not> distinct (?ids (2 ^ 64 + 1))"
    by simp
qed

theorem C1_witness:
  "length (filter is_create
      [CallCreate 5 input_A, CallCreate 6 input_A, CallDelete 1, CallCreate 7 input_A]) < 2 ^ 63 \<and>
   created_ids (fst (run
      [CallCreate 5 input_A, CallCreate 6 input_A, CallDelete 1, CallCreate 7 input_A]
      NewNoteRepoMem)) = [1, 2, 3] \<and>
   sorted_wrt (<s) (created_ids (fst (run
      [CallCreate 5 input_A, CallCreate 6 input_A, CallDelete 1, CallCreate 7 input_A]
      NewNoteRepoMem))) \<and>
   distinct (created_ids (fst (run
      [CallCreate 5 input_A, CallCreate 6 input_A, CallDelete 1, CallCreate 7 input_A]
      NewNoteRepoMem))) \<and>
   range_order (notes (snd (run
      [CallCreate 5 input_A, CallCreate 6 input_A, CallDelete 1, CallCreate 7 input_A]
      NewNoteRepoMem))) [3, 2] \<and>
   GetAll [3, 2] (snd (run
      [CallCreate 5 input_A, CallCreate 6 input_A, CallDelete 1, CallCreate 7 input_A]
      NewNoteRepoMem)) =
     (Some [\<lparr>ID = 3, Title = ''A'', Content = ''x'', CreatedAt = 7, UpdatedAt = None\<rparr>,
            \<lparr>ID = 2, Title = ''A'', Content = ''x'', CreatedAt = 6, UpdatedAt = None\<rparr>], None)"
proof -
  let ?cs = "[CallCreate 5 input_A, CallCreate 6 input_A, CallDelete 1, CallCreate 7 input_A]"
  note inst = C1_created_ids [where cs = ?cs and ta = 5 and a = input_A and tb = 6
      and b = input_A and tc = 7 and c = input_A and ks = "[3, 2]"]
  have n: "length (filter is_create ?cs) < 2 ^ 63"
    by simp
  have i: "created_ids (fst (run ?cs NewNoteRepoMem)) = [1, 2, 3]"
    by (simp add: NewNoteRepoMem_def Create_def Delete_def Let_def)
  have "length (filter is_create ?cs) < 2 ^ 63 \<longrightarrow>
      sorted_wrt (<s) (created_ids (fst (run ?cs NewNoteRepoMem))) \<and>
      distinct (created_ids (fst (run ?cs NewNoteRepoMem)))"
    using inst by - (elim conjE, assumption)
  then have sd: "sorted_wrt (<s) (created_ids (fst (run ?cs NewNoteRepoMem))) \<and>
      distinct (created_ids (fst (run ?cs NewNoteRepoMem)))"
    using n by (rule mp)
  have ro: "range_order (notes (snd (run ?cs NewNoteRepoMem))) [3, 2]"
    by (simp add: range_order_def NewNoteRepoMem_def Create_def Delete_def Let_def)
  have g: "GetAll [3, 2] (snd (run ?cs NewNoteRepoMem)) =
     (Some [\<lparr>ID = 3, Title = ''A'', Content = ''x'', CreatedAt = 7, UpdatedAt = None\<rparr>,
            \<lparr>ID = 2, Title = ''A'', Content = ''x'', CreatedAt = 6, UpdatedAt = None\<rparr>], None)"
    by (simp add: GetAll_def make_slice_def NewNoteRepoMem_def Create_def Delete_def Let_def)
  show ?thesis
    using sd by (intro conjI n i ro g) simp_all
qed

text \<open>
  C2: the invariant (every key is below the counter, every stored note carries its key as
  identifier) holds for a new store; every call preserves it, a \<open>Create\<close> provided the
  counter is not the greatest \<open>int64\<close>; where it holds, no two stored notes have the same
  identifier and the identifier that \<open>Create\<close> returns is not a key of the map; and
  after every run on a new store with fewer than \<open>2 ^ 63 - 1\<close> \<open>Create\<close> calls it holds
  and no identifier was handed out twice.
\<close>

theorem C2_invariant:
  "store_inv NewNoteRepoMem \<and>
   (store_inv r \<and> (is_create c \<longrightarrow> next r \<noteq> 2 ^ 63 - 1) \<longrightarrow> store_inv (snd (exec c r))) \<and>
   (store_inv r \<longrightarrow>
      (\<forall>k \<in> dom (notes r). k <s next r) \<and>
      (\<forall>j k a b. notes r j = Some a \<and> notes r k = Some b \<and> ID a = ID b \<longrightarrow> j = k) \<and>
      notes r (fst (fst (Create now n r))) = None) \<and>
   (length (filter is_create cs) < 2 ^ 63 - 1 \<longrightarrow>
      store_inv (snd (run cs NewNoteRepoMem)) \<and>
      distinct (created_ids (fst (run cs NewNoteRepoMem))))"
proof (intro conjI impI)
  show "store_inv NewNoteRepoMem"
    by (rule store_inv_New)
next
  assume "store_inv r \<and> (is_create c \<longrightarrow> next r \<noteq> 2 ^ 63 - 1)"
  then show "store_inv (snd (exec c r))"
    by (simp add: store_inv_exec)
next
  assume "store_inv r"
  then show "\<forall>k \<in> dom (notes r). k <s next r"
    by (simp add: store_inv_def keys_below_next_def)
next
  assume "store_inv r"
  then have "ids_are_keys r"
    by (simp add: store_inv_def)
  then show "\<forall>j k a b. notes r j = Some a \<and> notes r k = Some b \<and> ID a = ID b \<longrightarrow> j = k"
    using ids_are_keys_no_duplicate by blast
next
  assume "store_inv r"
  then have "keys_below_next r"
    by (simp add: store_inv_def)
  then have "notes r (next r) = None"
    by (rule keys_below_fresh)
  then show "notes r (fst (fst (Create now n r))) = None"
    by (simp add: Create_def Let_def)
next
  assume "length (filter is_create cs) < 2 ^ 63 - 1"
  then show "store_inv (snd (run cs NewNoteRepoMem))"
    by (rule store_inv_run)
next
  assume "length (filter is_create cs) < 2 ^ 63 - 1"
  then have "length (filter is_create cs) \<le> 2 ^ 64"
    by simp
  then show "distinct (created_ids (fst (run cs NewNoteRepoMem)))"
    by (simp only: created_ids_new ids_distinct)
qed

text \<open>
  \<open>Create\<close> does not preserve the invariant when the counter is the greatest \<open>int64\<close>:
  the counter wraps to the least one, below every key. A new store is in such a state
  after \<open>2 ^ 63 - 1\<close> \<open>Create\<close> calls.
\<close>

theorem C2_counterexample:
  "store_inv \<lparr>notes = [1 \<mapsto> note_A], next = 9223372036854775807\<rparr> \<and>
   next (snd (Create 9 input_A \<lparr>notes = [1 \<mapsto> note_A], next = 9223372036854775807\<rparr>))
     = - 9223372036854775808 \<and>
   notes (snd (Create 9 input_A \<lparr>notes = [1 \<mapsto> note_A], next = 9223372036854775807\<rparr>)) 1
     = Some note_A \<and>
   \<not> ((1 :: int64) <s - 9223372036854775808) \<and>
   \<not> store_inv (snd (Create 9 input_A \<lparr>notes = [1 \<mapsto> note_A], next = 9223372036854775807\<rparr>)) \<and>
   \<not> store_inv (snd (run (replicate (2 ^ 63 - 1) (CallCreate 0 input_A)) NewNoteRepoMem))"
proof (intro conjI)
  let ?r = "\<lparr>notes = [1 \<mapsto> note_A], next = 9223372036854775807\<rparr>"
  show "store_inv ?r"
    by (simp add: store_inv_def keys_below_next_def ids_are_keys_def word_sless_alt)
  show nx: "next (snd (Create 9 input_A ?r)) = - 9223372036854775808"
    by (simp add: Create_def Let_def)
  show k: "notes (snd (Create 9 input_A ?r)) 1 = Some note_A"
    by (simp add: Create_def Let_def)
  show ns: "\<not> ((1 :: int64) <s - 9223372036854775808)"
    by (simp add: word_sless_alt)
  have "\<not> keys_below_next (snd (Create 9 input_A ?r))"
    unfolding keys_below_next_def nx using k ns by (auto simp: dom_def)
  then show "\<not> store_inv (snd (Create 9 input_A ?r))"
    by (simp add: store_inv_def)
  let ?s = "snd (run (replicate (2 ^ 63 - 1) (CallCreate 0 input_A)) NewNoteRepoMem)"
  have "next ?s = next NewNoteRepoMem + word_of_nat (2 ^ 63 - 1)"
    by (simp only: run_next count_replicate_create)
  then have sx: "next ?s = - 9223372036854775808"
    by (simp add: NewNoteRepoMem_def)
  have e: "Suc (2 ^ 63 - 2) = (2 ^ 63 - 1 :: nat)"
    by simp
  have "notes ?s (next NewNoteRepoMem) \<noteq> None"
    using run_creates_first_key [of "2 ^ 63 - 2" 0 input_A NewNoteRepoMem] unfolding e .
  then have sk: "notes ?s 1 \<noteq> None"
    by (simp add: NewNoteRepoMem_def)
  have "\<not> keys_below_next ?s"
    unfolding keys_below_next_def sx using sk ns by (auto simp: dom_def)
  then show "\<not> store_inv ?s"
    by (simp add: store_inv_def)
qed

theorem C2_witness:
  "store_inv store_AB \<and>
   next store_AB \<noteq> 2 ^ 63 - 1 \<and>
   store_inv (snd (exec (CallCreate 9 input_A) store_AB)) \<and>
   notes store_AB (fst (fst (Create 9 input_A store_AB))) = None \<and>
   length (filter is_create [CallCreate 5 input_A, CallDelete 1, CallCreate 6 input_A]) < 2 ^ 63 - 1 \<and>
   store_inv (snd (run [CallCreate 5 input_A, CallDelete 1, CallCreate 6 input_A] NewNoteRepoMem))"
proof -
  let ?cs = "[CallCreate 5 input_A, CallDelete 1, CallCreate 6 input_A]"
  note inst = C2_invariant [where r = store_AB and c = "CallCreate 9 input_A" and now = 9
      and n = input_A and cs = ?cs]
  have i: "store_inv store_AB"
    by (simp add: store_inv_def keys_below_next_def ids_are_keys_def word_sless_alt)
  have m: "next store_AB \<noteq> 2 ^ 63 - 1"
    by simp
  from i m have h: "store_inv store_AB \<and>
      (is_create (CallCreate 9 input_A) \<longrightarrow> next store_AB \<noteq> 2 ^ 63 - 1)"
    by simp
  have "store_inv store_AB \<and>
      (is_create (CallCreate 9 input_A) \<longrightarrow> next store_AB \<noteq> 2 ^ 63 - 1) \<longrightarrow>
      store_inv (snd (exec (CallCreate 9 input_A) store_AB))"
    using inst by - (elim conjE, assumption)
  then have e: "store_inv (snd (exec (CallCreate 9 input_A) store_AB))"
    using h by (rule mp)
  have f: "notes store_AB (fst (fst (Create 9 input_A store_AB))) = None"
    by (simp add: Create_def Let_def)
  have l: "length (filter is_create ?cs) < 2 ^ 63 - 1"
    by simp
  have "length (filter is_create ?cs) < 2 ^ 63 - 1 \<longrightarrow>
      store_inv (snd (run ?cs NewNoteRepoMem)) \<and>
      distinct (created_ids (fst (run ?cs NewNoteRepoMem)))"
    using inst by - (elim conjE, assumption)
  then have "store_inv (snd (run ?cs NewNoteRepoMem)) \<and>
      distinct (created_ids (fst (run ?cs NewNoteRepoMem)))"
    using l by (rule mp)
  then have s: "store_inv (snd (run ?cs NewNoteRepoMem))"
    by (rule conjunct1)
  show ?thesis
    by (intro conjI i m e f l s)
qed

text \<open>
  C3: after \<open>Create\<close> of any note in any store, the call has signalled no error, and
  \<open>GetByID\<close> of the returned identifier succeeds with a note that has the title and the
  content of the input, the assigned identifier, the creation time as \<open>created_at\<close> and
  no \<open>updated_at\<close>.
\<close>

theorem C3_create_then_get:
  "\<exists>i r' note.
      Create now n r = ((i, None), r') \<and> i = next r \<and>
      GetByID i r' = Inr note \<and>
      Title note = Title n \<and> Content note = Content n \<and>
      ID note = i \<and> CreatedAt note = now \<and> UpdatedAt note = None \<and>
      note = n\<lparr>ID := i, CreatedAt := now, UpdatedAt := None\<rparr>"
  by (simp add: Create_def GetByID_def Let_def)

text \<open>
  C4: \<open>GetByID\<close>, \<open>UpdatePartial\<close> and \<open>Delete\<close> signal \<open>ErrNoteNotFound\<close> exactly when
  the identifier is not a key of the map, and succeed exactly when it is; \<open>Create\<close> and
  \<open>GetAll\<close> signal no error; every error that any call signals is \<open>ErrNoteNotFound\<close>,
  from one of the three methods on an absent identifier; and after a \<open>Delete\<close> that
  succeeded, \<open>GetByID\<close> of the same identifier signals \<open>ErrNoteNotFound\<close>.
\<close>

theorem C4_not_found_iff_absent:
  "(reply_error (fst (exec c r)) = Some e \<longrightarrow>
      e = ErrNoteNotFound \<and>
      (\<exists>j. notes r j = None \<and>
           (c = CallGetByID j \<or> (\<exists>t u. c = CallUpdatePartial t j u) \<or> c = CallDelete j))) \<and>
   (GetByID i r = Inl ErrNoteNotFound) = (notes r i = None) \<and>
   (fst (UpdatePartial now i updates r) = Some ErrNoteNotFound) = (notes r i = None) \<and>
   (fst (Delete i r) = Some ErrNoteNotFound) = (notes r i = None) \<and>
   (\<exists>note. GetByID i r = Inr note) = (notes r i \<noteq> None) \<and>
   (fst (UpdatePartial now i updates r) = None) = (notes r i \<noteq> None) \<and>
   (fst (Delete i r) = None) = (notes r i \<noteq> None) \<and>
   snd (fst (Create now n r)) = None \<and>
   snd (GetAll ks r) = None \<and>
   (fst (Delete i r) = None \<longrightarrow> GetByID i (snd (Delete i r)) = Inl ErrNoteNotFound)"
proof (rule conjI)
  show "reply_error (fst (exec c r)) = Some e \<longrightarrow>
      e = ErrNoteNotFound \<and>
      (\<exists>j. notes r j = None \<and>
           (c = CallGetByID j \<or> (\<exists>t u. c = CallUpdatePartial t j u) \<or> c = CallDelete j))"
  proof (cases c)
    case (CallCreate t m)
    then show ?thesis by (simp add: Create_def Let_def)
  next
    case (CallGetByID j)
    then show ?thesis by (cases e) (simp add: GetByID_def split: option.splits)
  next
    case (CallGetAll js)
    then show ?thesis by (simp add: GetAll_eq)
  next
    case (CallUpdatePartial t j u)
    then show ?thesis
      by (cases e; cases "notes r j") (simp_all add: UpdatePartial_absent UpdatePartial_found)
  next
    case (CallDelete j)
    then show ?thesis by (cases e) (simp add: Delete_def)
  qed
next
  show "(GetByID i r = Inl ErrNoteNotFound) = (notes r i = None) \<and>
     (fst (UpdatePartial now i updates r) = Some ErrNoteNotFound) = (notes r i = None) \<and>
     (fst (Delete i r) = Some ErrNoteNotFound) = (notes r i = None) \<and>
     (\<exists>note. GetByID i r = Inr note) = (notes r i \<noteq> None) \<and>
     (fst (UpdatePartial now i updates r) = None) = (notes r i \<noteq> None) \<and>
     (fst (Delete i r) = None) = (notes r i \<noteq> None) \<and>
     snd (fst (Create now n r)) = None \<and>
     snd (GetAll ks r) = None \<and>
     (fst (Delete i r) = None \<longrightarrow> GetByID i (snd (Delete i r)) = Inl ErrNoteNotFound)"
    by (cases "notes r i")
       (simp_all add: GetByID_def UpdatePartial_absent UpdatePartial_found Delete_def Create_def
          GetAll_eq Let_def)
qed

theorem C4_witness:
  "fst (Delete 1 store_A) = None \<and>
   GetByID 1 (snd (Delete 1 store_A)) = Inl ErrNoteNotFound \<and>
   reply_error (fst (exec (CallDelete 7) store_A)) = Some ErrNoteNotFound \<and>
   notes store_A 7 = None"
proof -
  have h: "fst (Delete 1 store_A) = None"
    by (simp add: Delete_def)
  have e: "reply_error (fst (exec (CallDelete 7) store_A)) = Some ErrNoteNotFound"
    by (simp add: Delete_def)
  have a: "notes store_A 7 = None"
    by simp
  have "fst (Delete 1 store_A) = None \<longrightarrow>
      GetByID 1 (snd (Delete 1 store_A)) = Inl ErrNoteNotFound"
    using C4_not_found_iff_absent [where i = 1 and r = store_A and c = "CallDelete 7"
        and e = ErrNoteNotFound and now = 0 and updates = Map.empty and n = input_A and ks = "[]"]
    by - (elim conjE, assumption)
  then have g: "GetByID 1 (snd (Delete 1 store_A)) = Inl ErrNoteNotFound"
    using h by (rule mp)
  show ?thesis by (intro conjI h g e a)
qed

text \<open>
  C5: for a stored note, \<open>UpdatePartial\<close> succeeds; the title afterwards is the provided
  title if that is a string and not empty, and the stored title otherwise (so also for a
  provided empty string and for no title); the content afterwards is the provided content
  if that is a string, the empty string included, and the stored content otherwise (so
  also for no content); identifier and \<open>created_at\<close> are the stored ones.
\<close>

theorem C5_update_fields:
  assumes "notes r i = Some note"
  shows "fst (UpdatePartial now i updates r) = None \<and>
    (\<exists>note'. notes (snd (UpdatePartial now i updates r)) i = Some note' \<and>
       Title note' = (case updates ''title'' of
                        Some (AString t) \<Rightarrow> if t \<noteq> [] then t else Title note
                      | _ \<Rightarrow> Title note) \<and>
       Content note' = (case updates ''content'' of
                          Some (AString c) \<Rightarrow> c
                        | _ \<Rightarrow> Content note) \<and>
       (updates ''title'' = Some (AString []) \<longrightarrow> Title note' = Title note) \<and>
       (updates ''title'' = None \<longrightarrow> Title note' = Title note) \<and>
       (updates ''content'' = Some (AString []) \<longrightarrow> Content note' = []) \<and>
       (updates ''content'' = None \<longrightarrow> Content note' = Content note) \<and>
       ID note' = ID note \<and> CreatedAt note' = CreatedAt note)"
  by (simp add: UpdatePartial_found [OF assms])

theorem C5_witness:
  "notes store_A 1 = Some note_A \<and>
   fst (UpdatePartial 9 1 [''title'' \<mapsto> AString [], ''content'' \<mapsto> AString []] store_A) = None \<and>
   notes (snd (UpdatePartial 9 1 [''title'' \<mapsto> AString [], ''content'' \<mapsto> AString []] store_A)) 1
     = Some \<lparr>ID = 1, Title = ''A'', Content = [], CreatedAt = 5, UpdatedAt = Some 9\<rparr> \<and>
   notes (snd (UpdatePartial 9 1 [''title'' \<mapsto> AString ''B''] store_A)) 1
     = Some \<lparr>ID = 1, Title = ''B'', Content = ''x'', CreatedAt = 5, UpdatedAt = Some 9\<rparr>"
proof -
  have h: "notes store_A 1 = Some note_A"
    by simp
  have u: "notes (snd (UpdatePartial 9 1 [''title'' \<mapsto> AString [], ''content'' \<mapsto> AString []] store_A)) 1
     = Some \<lparr>ID = 1, Title = ''A'', Content = [], CreatedAt = 5, UpdatedAt = Some 9\<rparr>"
    by (simp add: UpdatePartial_def)
  have v: "notes (snd (UpdatePartial 9 1 [''title'' \<mapsto> AString ''B''] store_A)) 1
     = Some \<lparr>ID = 1, Title = ''B'', Content = ''x'', CreatedAt = 5, UpdatedAt = Some 9\<rparr>"
    by (simp add: UpdatePartial_def)
  have t: "fst (UpdatePartial 9 1 [''title'' \<mapsto> AString [], ''content'' \<mapsto> AString []] store_A) = None"
    using C5_update_fields [OF h] by (rule conjunct1)
  show ?thesis by (intro conjI h t u v)
qed

text \<open>
  C6: for a stored note and any update request, \<open>UpdatePartial\<close> succeeds and the note's
  \<open>updated_at\<close> afterwards is the time of the update, so not nil; this is so also when
  neither title nor content changes, and then nothing but \<open>updated_at\<close> changes.
\<close>

theorem C6_updated_at_set:
  assumes "notes r i = Some note"
  shows "fst (UpdatePartial now i updates r) = None \<and>
     (\<exists>note'. notes (snd (UpdatePartial now i updates r)) i = Some note' \<and>
        UpdatedAt note' = Some now \<and> UpdatedAt note' \<noteq> None \<and>
        (Title note' = Title note \<and> Content note' = Content note \<longrightarrow>
           note' = note\<lparr>UpdatedAt := Some now\<rparr>))"
  by (simp add: UpdatePartial_found [OF assms])

theorem C6_witness:
  "notes store_A 1 = Some note_A \<and>
   fst (UpdatePartial 9 1 [''title'' \<mapsto> AString [], ''content'' \<mapsto> AString ''x''] store_A) = None \<and>
   notes (snd (UpdatePartial 9 1 [''title'' \<mapsto> AString [], ''content'' \<mapsto> AString ''x''] store_A)) 1
     = Some (note_A\<lparr>UpdatedAt := Some 9\<rparr>)"
proof -
  have h: "notes store_A 1 = Some note_A"
    by simp
  have u: "notes (snd (UpdatePartial 9 1 [''title'' \<mapsto> AString [], ''content'' \<mapsto> AString ''x''] store_A)) 1
     = Some (note_A\<lparr>UpdatedAt := Some 9\<rparr>)"
    by (simp add: UpdatePartial_def)
  have t: "fst (UpdatePartial 9 1 [''title'' \<mapsto> AString [], ''content'' \<mapsto> AString ''x''] store_A) = None"
    using C6_updated_at_set [OF h] by (rule conjunct1)
  show ?thesis by (intro conjI h t u)
qed

text \<open>
  C8: when \<open>UpdatePartial\<close> or \<open>Delete\<close> signals \<open>ErrNoteNotFound\<close>, the store after the
  call, map and counter, is the store before it.
\<close>

theorem C8_error_leaves_store:
  "(fst (UpdatePartial now i updates r) = Some ErrNoteNotFound \<longrightarrow>
      snd (UpdatePartial now i updates r) = r) \<and>
   (fst (Delete i r) = Some ErrNoteNotFound \<longrightarrow> snd (Delete i r) = r)"
  by (auto simp: UpdatePartial_def Delete_def Let_def split: option.splits prod.splits)

theorem C8_witness:
  "fst (UpdatePartial 9 7 [''title'' \<mapsto> AString ''B''] store_A) = Some ErrNoteNotFound \<and>
   snd (UpdatePartial 9 7 [''title'' \<mapsto> AString ''B''] store_A) = store_A \<and>
   fst (Delete 7 store_A) = Some ErrNoteNotFound \<and>
   snd (Delete 7 store_A) = store_A"
proof -
  have u: "fst (UpdatePartial 9 7 [''title'' \<mapsto> AString ''B''] store_A) = Some ErrNoteNotFound"
    by (simp add: UpdatePartial_def)
  have d: "fst (Delete 7 store_A) = Some ErrNoteNotFound"
    by (simp add: Delete_def)
  have u': "snd (UpdatePartial 9 7 [''title'' \<mapsto> AString ''B''] store_A) = store_A"
    using C8_error_leaves_store [THEN conjunct1] u by (rule mp)
  have d': "snd (Delete 7 store_A) = store_A"
    using C8_error_leaves_store [THEN conjunct2] d by (rule mp)
  show ?thesis by (intro conjI u u' d d')
qed

text \<open>
  C7: \<open>UpdatePartial\<close> leaves the identifier and \<open>created_at\<close> of the note it updates
  and every entry under another key as they were; \<open>Create\<close> leaves every entry but the
  one under the identifier it returns as it was, and \<open>Delete\<close> every entry but the one it
  removes. For any call, a key bound before and after the call holds a note with the same
  identifier and \<open>created_at\<close>, unless the call is a \<open>Create\<close> whose counter value was
  already a key: that call binds the key to the note it creates. Where every key is below
  the counter there is no such \<open>Create\<close>, and every note that is still stored has kept
  its \<open>created_at\<close>.
\<close>

theorem C7_frame:
  "(notes r i = Some target \<longrightarrow>
      (\<exists>target'. notes (snd (UpdatePartial now i updates r)) i = Some target' \<and>
          ID target' = ID target \<and> CreatedAt target' = CreatedAt target)) \<and>
   (j \<noteq> i \<longrightarrow> notes (snd (UpdatePartial now i updates r)) j = notes r j) \<and>
   (j \<noteq> fst (fst (Create now n r)) \<longrightarrow> notes (snd (Create now n r)) j = notes r j) \<and>
   (j \<noteq> i \<longrightarrow> notes (snd (Delete i r)) j = notes r j) \<and>
   (notes r j = Some old \<and> notes (snd (exec c r)) j = Some new \<longrightarrow>
      CreatedAt new = CreatedAt old \<and> ID new = ID old \<or>
      (\<exists>now' n'. c = CallCreate now' n' \<and> j = fst (fst (Create now' n' r)) \<and>
          new = n'\<lparr>ID := j, CreatedAt := now', UpdatedAt := None\<rparr>)) \<and>
   (keys_below_next r \<and> notes r j = Some old \<and> notes (snd (exec c r)) j = Some new \<longrightarrow>
      CreatedAt new = CreatedAt old \<and> ID new = ID old)"
proof (intro conjI impI)
  assume "notes r i = Some target"
  then show "\<exists>target'. notes (snd (UpdatePartial now i updates r)) i = Some target' \<and>
          ID target' = ID target \<and> CreatedAt target' = CreatedAt target"
    by (simp add: UpdatePartial_found)
next
  assume "j \<noteq> i"
  then show "notes (snd (UpdatePartial now i updates r)) j = notes r j"
    by (rule UpdatePartial_other)
next
  assume "j \<noteq> fst (fst (Create now n r))"
  then show "notes (snd (Create now n r)) j = notes r j"
    by (simp add: Create_def Let_def)
next
  assume "j \<noteq> i"
  then show "notes (snd (Delete i r)) j = notes r j"
    by (simp add: Delete_def)
next
  assume "notes r j = Some old \<and> notes (snd (exec c r)) j = Some new"
  then show "CreatedAt new = CreatedAt old \<and> ID new = ID old \<or>
      (\<exists>now' n'. c = CallCreate now' n' \<and> j = fst (fst (Create now' n' r)) \<and>
          new = n'\<lparr>ID := j, CreatedAt := now', UpdatedAt := None\<rparr>)"
    by (simp add: exec_entry)
next
  assume a: "keys_below_next r \<and> notes r j = Some old \<and> notes (snd (exec c r)) j = Some new"
  then have "notes r (next r) = None"
    by (simp add: keys_below_fresh)
  with a have "\<not> (\<exists>now' n'. c = CallCreate now' n' \<and> j = fst (fst (Create now' n' r)))"
    by (auto simp: Create_def Let_def)
  with a exec_entry [of r j old c new] show "CreatedAt new = CreatedAt old"
    by blast
next
  assume a: "keys_below_next r \<and> notes r j = Some old \<and> notes (snd (exec c r)) j = Some new"
  then have "notes r (next r) = None"
    by (simp add: keys_below_fresh)
  with a have "\<not> (\<exists>now' n'. c = CallCreate now' n' \<and> j = fst (fst (Create now' n' r)))"
    by (auto simp: Create_def Let_def)
  with a exec_entry [of r j old c new] show "ID new = ID old"
    by blast
qed

text \<open>
  Not in every state of the store does \<open>Create\<close> leave the stored notes as they were:
  when the counter value is a key of the map, \<open>Create\<close> puts its new note in the place
  of the stored one, whose \<open>created_at\<close> is lost. Here the note under 1, created at 5,
  gives way to one created at 9. A new store is in such a state after \<open>2 ^ 64\<close>
  \<open>Create\<close> calls.
\<close>

theorem C7_counterexample:
  "notes \<lparr>notes = [1 \<mapsto> note_A], next = 1\<rparr> 1 = Some note_A \<and>
   fst (Create 9 input_A \<lparr>notes = [1 \<mapsto> note_A], next = 1\<rparr>) = (1, None) \<and>
   notes (snd (Create 9 input_A \<lparr>notes = [1 \<mapsto> note_A], next = 1\<rparr>)) 1 =
     Some \<lparr>ID = 1, Title = ''A'', Content = ''x'', CreatedAt = 9, UpdatedAt = None\<rparr> \<and>
   notes (snd (exec (CallCreate 9 input_A) \<lparr>notes = [1 \<mapsto> note_A], next = 1\<rparr>)) 1 =
     Some \<lparr>ID = 1, Title = ''A'', Content = ''x'', CreatedAt = 9, UpdatedAt = None\<rparr> \<and>
   CreatedAt \<lparr>ID = 1, Title = ''A'', Content = ''x'', CreatedAt = 9, UpdatedAt = None\<rparr>
     \<noteq> CreatedAt note_A \<and>
   next (snd (run (CallCreate 5 input_A # replicate (2 ^ 64 - 1) (CallCreate 0 input_A))
      NewNoteRepoMem)) = 1 \<and>
   notes (snd (run (CallCreate 5 input_A # replicate (2 ^ 64 - 1) (CallCreate 0 input_A))
      NewNoteRepoMem)) 1 = Some note_A \<and>
   notes (snd (exec (CallCreate 9 input_A)
      (snd (run (CallCreate 5 input_A # replicate (2 ^ 64 - 1) (CallCreate 0 input_A))
         NewNoteRepoMem)))) 1 =
     Some \<lparr>ID = 1, Title = ''A'', Content = ''x'', CreatedAt = 9, UpdatedAt = None\<rparr>"
proof (intro conjI)
  let ?r = "\<lparr>notes = [1 \<mapsto> note_A], next = 1\<rparr>"
  let ?new = "\<lparr>ID = 1, Title = ''A'', Content = ''x'', CreatedAt = 9, UpdatedAt = None\<rparr>"
  show "notes ?r 1 = Some note_A"
    by simp
  show "fst (Create 9 input_A ?r) = (1, None)"
    by (simp add: Create_def Let_def)
  show "notes (snd (Create 9 input_A ?r)) 1 = Some ?new"
    by (simp add: Create_def Let_def)
  show "notes (snd (exec (CallCreate 9 input_A) ?r)) 1 = Some ?new"
    by (simp add: Create_def Let_def)
  show "CreatedAt ?new \<noteq> CreatedAt note_A"
    by simp
  define w where
    "w = snd (run (CallCreate 5 input_A # replicate (2 ^ 64 - 1) (CallCreate 0 input_A))
       NewNoteRepoMem)"
  have ws: "next w = 1 \<and> notes w 1 = Some note_A"
    by (rule wrapped_store) (simp only: w_def)
  from ws show "next (snd (run (CallCreate 5 input_A # replicate (2 ^ 64 - 1) (CallCreate 0 input_A))
      NewNoteRepoMem)) = 1"
    unfolding w_def by (rule conjunct1)
  from ws show "notes (snd (run (CallCreate 5 input_A # replicate (2 ^ 64 - 1) (CallCreate 0 input_A))
      NewNoteRepoMem)) 1 = Some note_A"
    unfolding w_def by (rule conjunct2)
  from ws have "notes (snd (exec (CallCreate 9 input_A) w)) 1 = Some ?new"
    by (simp add: Create_def Let_def)
  then show "notes (snd (exec (CallCreate 9 input_A)
      (snd (run (CallCreate 5 input_A # replicate (2 ^ 64 - 1) (CallCreate 0 input_A))
         NewNoteRepoMem)))) 1 = Some ?new"
    unfolding w_def .
qed

theorem C7_witness:
  "notes store_AB 1 = Some note_A \<and>
   keys_below_next store_AB \<and>
   notes (snd (UpdatePartial 9 1 [''title'' \<mapsto> AString ''T''] store_AB)) 1 =
     Some \<lparr>ID = 1, Title = ''T'', Content = ''x'', CreatedAt = 5, UpdatedAt = Some 9\<rparr> \<and>
   notes (snd (UpdatePartial 9 1 [''title'' \<mapsto> AString ''T''] store_AB)) 2 = Some note_B \<and>
   fst (fst (Create 9 input_A store_AB)) = 3 \<and>
   notes (snd (Create 9 input_A store_AB)) 2 = Some note_B \<and>
   notes (snd (Delete 1 store_AB)) 2 = Some note_B \<and>
   notes (snd (exec (CallDelete 1) store_AB)) 2 = Some note_B"
  using C7_frame [where r = store_AB and i = 1 and j = 2 and target = note_A and now = 9
      and updates = "[''title'' \<mapsto> AString ''T'']" and n = input_A and old = note_B
      and new = note_B and c = "CallDelete 1"]
  by (simp add: UpdatePartial_def Create_def Delete_def keys_below_next_def word_sless_alt)

text \<open>
  C9: \<open>GetAll\<close> returns no error and a slice that is not nil, whatever the order of the
  loop. When the loop visits every key of the map once, the slice holds the note stored
  under each visited key, in the order of the visit: one copy of every stored note and
  nothing else. On an empty map the slice is empty. A finite map has such an order, and
  so has the map of a store after any run of calls on a new store.
\<close>

theorem C9_get_all:
  "(\<exists>xs. GetAll ks r = (Some xs, None)) \<and>
   (range_order (notes r) ks \<longrightarrow>
      (\<exists>xs. GetAll ks r = (Some xs, None) \<and>
         map Some xs = map (notes r) ks \<and>
         mset (map Some xs) = image_mset (notes r) (mset_set (dom (notes r))) \<and>
         length xs = card (dom (notes r)) \<and>
         set xs = ran (notes r))) \<and>
   (notes r = Map.empty \<longrightarrow> GetAll ks r = (Some [], None)) \<and>
   (finite (dom (notes r)) \<longrightarrow> (\<exists>ks'. range_order (notes r) ks')) \<and>
   (\<exists>ks'. range_order (notes (snd (run cs NewNoteRepoMem))) ks')"
proof (intro conjI impI)
  show "\<exists>xs. GetAll ks r = (Some xs, None)"
    by (simp add: GetAll_eq)
next
  assume ro: "range_order (notes r) ks"
  show "\<exists>xs. GetAll ks r = (Some xs, None) \<and>
         map Some xs = map (notes r) ks \<and>
         mset (map Some xs) = image_mset (notes r) (mset_set (dom (notes r))) \<and>
         length xs = card (dom (notes r)) \<and>
         set xs = ran (notes r)"
    by (intro exI [of _ "List.map_filter (notes r) ks"] conjI GetAll_eq
          GetAll_range_order [OF ro])
next
  assume "notes r = Map.empty"
  then show "GetAll ks r = (Some [], None)"
    by (induction ks) (simp_all add: GetAll_eq)
next
  assume "finite (dom (notes r))"
  then show "\<exists>ks'. range_order (notes r) ks'"
    by (rule range_order_exists)
next
  show "\<exists>ks'. range_order (notes (snd (run cs NewNoteRepoMem))) ks'"
    using finite_dom_new_run by (rule range_order_exists)
qed

theorem C9_witness:
  "range_order (notes store_AB) [2, 1] \<and>
   GetAll [2, 1] store_AB = (Some [note_B, note_A], None) \<and>
   notes NewNoteRepoMem = Map.empty \<and>
   GetAll [] NewNoteRepoMem = (Some [], None)"
proof -
  have ro: "range_order (notes store_AB) [2, 1]"
    by (auto simp: range_order_def)
  have e: "notes NewNoteRepoMem = Map.empty"
    by (simp add: NewNoteRepoMem_def)
  note inst = C9_get_all [of "[2, 1]" store_AB "[]"]
  have "range_order (notes store_AB) [2, 1] \<longrightarrow>
      (\<exists>xs. GetAll [2, 1] store_AB = (Some xs, None) \<and>
         map Some xs = map (notes store_AB) [2, 1] \<and>
         mset (map Some xs) = image_mset (notes store_AB) (mset_set (dom (notes store_AB))) \<and>
         length xs = card (dom (notes store_AB)) \<and>
         set xs = ran (notes store_AB))"
    using inst by - (elim conjE, assumption)
  then have "\<exists>xs. GetAll [2, 1] store_AB = (Some xs, None) \<and>
         map Some xs = map (notes store_AB) [2, 1] \<and>
         mset (map Some xs) = image_mset (notes store_AB) (mset_set (dom (notes store_AB))) \<and>
         length xs = card (dom (notes store_AB)) \<and>
         set xs = ran (notes store_AB)"
    using ro by (rule mp)
  then obtain xs where x: "GetAll [2, 1] store_AB = (Some xs, None)"
      and y: "map Some xs = map (notes store_AB) [2, 1]"
    by (elim exE conjE)
  from y have "xs = [note_B, note_A]"
    by (simp add: map_eq_Cons_conv)
  with x have g: "GetAll [2, 1] store_AB = (Some [note_B, note_A], None)"
    by simp
  have "notes NewNoteRepoMem = Map.empty \<longrightarrow> GetAll [] NewNoteRepoMem = (Some [], None)"
    using C9_get_all [of "[]" NewNoteRepoMem "[]"] by - (elim conjE, assumption)
  then have n: "GetAll [] NewNoteRepoMem = (Some [], None)"
    using e by (rule mp)
  show ?thesis by (intro conjI ro g e n)
qed

text \<open>
  C10: for a stored note, when the request holds under \<open>title\<close> (or under \<open>content\<close>) a
  value that is not a string, \<open>UpdatePartial\<close> does what it does on the request without
  that entry: it signals no error, leaves the title (the content) as stored and sets
  \<open>updated_at\<close> to the time of the update.
\<close>

theorem C10_non_string_ignored:
  assumes "notes r i = Some note"
  shows "(updates ''title'' = Some v \<and> (\<forall>s. v \<noteq> AString s) \<longrightarrow>
      UpdatePartial now i updates r = UpdatePartial now i (updates(''title'' := None)) r \<and>
      fst (UpdatePartial now i updates r) = None \<and>
      (\<exists>note'. notes (snd (UpdatePartial now i updates r)) i = Some note' \<and>
         Title note' = Title note \<and> UpdatedAt note' = Some now)) \<and>
    (updates ''content'' = Some w \<and> (\<forall>s. w \<noteq> AString s) \<longrightarrow>
      UpdatePartial now i updates r = UpdatePartial now i (updates(''content'' := None)) r \<and>
      fst (UpdatePartial now i updates r) = None \<and>
      (\<exists>note'. notes (snd (UpdatePartial now i updates r)) i = Some note' \<and>
         Content note' = Content note \<and> UpdatedAt note' = Some now))"
  by (cases v; cases w) (auto simp add: UpdatePartial_found [OF assms])

theorem C10_witness:
  "notes store_A 1 = Some note_A \<and>
   [''title'' \<mapsto> AInt 7, ''content'' \<mapsto> ABool True] ''title'' = Some (AInt 7) \<and>
   [''title'' \<mapsto> AInt 7, ''content'' \<mapsto> ABool True] ''content'' = Some (ABool True) \<and>
   fst (UpdatePartial 9 1 [''title'' \<mapsto> AInt 7, ''content'' \<mapsto> ABool True] store_A) = None \<and>
   notes (snd (UpdatePartial 9 1 [''title'' \<mapsto> AInt 7, ''content'' \<mapsto> ABool True] store_A)) 1 =
     Some (note_A\<lparr>UpdatedAt := Some 9\<rparr>)"
proof -
  have h: "notes store_A 1 = Some note_A"
    by simp
  have t: "[''title'' \<mapsto> AInt 7, ''content'' \<mapsto> ABool True] ''title'' = Some (AInt 7)"
    by simp
  have c: "[''title'' \<mapsto> AInt 7, ''content'' \<mapsto> ABool True] ''content'' = Some (ABool True)"
    by simp
  have ns: "\<forall>s. AInt 7 \<noteq> AString s" "\<forall>s. ABool True \<noteq> AString s"
    by simp_all
  have p: "[''title'' \<mapsto> AInt 7, ''content'' \<mapsto> ABool True] ''title'' = Some (AInt 7) \<and>
      (\<forall>s. AInt 7 \<noteq> AString s)"
    by (intro conjI t ns)
  have e: "fst (UpdatePartial 9 1 [''title'' \<mapsto> AInt 7, ''content'' \<mapsto> ABool True] store_A) = None"
    using C10_non_string_ignored [OF h, where v = "AInt 7" and w = "ABool True" and now = 9
        and updates = "[''title'' \<mapsto> AInt 7, ''content'' \<mapsto> ABool True]",
        THEN conjunct1, THEN mp, OF p]
    by - (elim conjE, assumption)
  have u: "notes (snd (UpdatePartial 9 1 [''title'' \<mapsto> AInt 7, ''content'' \<mapsto> ABool True] store_A)) 1 =
     Some (note_A\<lparr>UpdatedAt := Some 9\<rparr>)"
    by (simp add: UpdatePartial_def)
  show ?thesis by (intro conjI h t c e u)
qed

end
